theory Spec2Isabelle
  imports Main
begin

section \<open>Data model (src/main.py, lines 6-33)\<close>

text \<open>
  Python strings are sequences of Unicode code points; a name is modelled as the list
  of its code points, since \<^verbatim>\<open>chr(ord('a') + i)\<close> leaves the 8-bit range for
  large \<^verbatim>\<open>i\<close>. Python integers are unbounded: \<^typ>\<open>int\<close>.
\<close>

type_synonym pystr = "nat list"

definition MIN_VALUE :: int where
  "MIN_VALUE = - (2 ^ 31)"

definition MAX_VALUE :: int where
  "MAX_VALUE = 2 ^ 31"

text \<open>
  \<^verbatim>\<open>class Node\<close> (name, child_nodes) and its subclass \<^verbatim>\<open>LeafNode\<close> (name, eval).
  The search dispatches on \<^verbatim>\<open>type(node) is LeafNode\<close>, so the two classes are the
  two constructors. A \<^verbatim>\<open>LeafNode\<close> inherits an empty \<^verbatim>\<open>child_nodes\<close> that no
  function of the program reads.
\<close>

datatype node =
    Node pystr "node list"
  | LeafNode pystr int

section \<open>Alpha-beta search (src/main.py, lines 90-170)\<close>

definition indent :: "pystr \<Rightarrow> pystr" where
  "indent str = str @ [32, 32]"

text \<open>
  Each \<^verbatim>\<open>print\<close> call of \<^verbatim>\<open>alpha_beta\<close> is one event that carries the arguments
  of its format string, in the order of the source:
  line 111 (leaf), line 115 (entering a node), line 126 (updating alpha),
  line 132 (\<^verbatim>\<open>BETA cut-off\<close>, in the maximizing branch), lines 137 and 159 (returning),
  line 148 (updating beta; the source passes \<^verbatim>\<open>beta=alpha\<close> to the format),
  line 156 (\<^verbatim>\<open>ALPHA cut-off\<close>, in the minimizing branch).
\<close>

datatype event =
    Leaf_eval pystr pystr int
  | Enter_node pystr pystr int int bool
  | Updating_alpha pystr pystr int int
  | BETA_cutoff pystr int int
  | Returning pystr pystr int
  | Updating_beta pystr pystr int int
  | ALPHA_cutoff pystr int int

text \<open>
  \<^verbatim>\<open>alpha_beta\<close> returns the value; the model returns with it the events printed, in
  order, and the nodes on which \<^verbatim>\<open>alpha_beta\<close> was called, in call order (the
  record of which subtrees the search evaluated). The two \<^verbatim>\<open>for\<close> loops are
  \<open>max_loop\<close> and \<open>min_loop\<close>, on the children still to visit and the loop
  variables \<^verbatim>\<open>v\<close>, \<^verbatim>\<open>alpha\<close>, \<^verbatim>\<open>beta\<close>; \<^verbatim>\<open>break\<close> is the branch that does not
  recurse. The recursive calls of the source do not pass \<^verbatim>\<open>verbose\<close>, so the children
  are searched with its default \<^verbatim>\<open>True\<close>.
\<close>

function (sequential) alpha_beta :: "node \<Rightarrow> int \<Rightarrow> int \<Rightarrow> bool \<Rightarrow> pystr \<Rightarrow> bool \<Rightarrow> int \<times> event list \<times> node list"
and max_loop :: "node list \<Rightarrow> pystr \<Rightarrow> int \<Rightarrow> int \<Rightarrow> int \<Rightarrow> pystr \<Rightarrow> bool \<Rightarrow> int \<times> event list \<times> node list"
and min_loop :: "node list \<Rightarrow> pystr \<Rightarrow> int \<Rightarrow> int \<Rightarrow> int \<Rightarrow> pystr \<Rightarrow> bool \<Rightarrow> int \<times> event list \<times> node list"
where
  "alpha_beta (LeafNode name eval) alpha beta is_max spaces verbose =
     (eval, (if verbose then [Leaf_eval spaces name eval] else []), [LeafNode name eval])"
| "alpha_beta (Node name chs) alpha beta is_max spaces verbose =
     (let entered = (if verbose then [Enter_node spaces name alpha beta is_max] else [])
      in if is_max then
           (case max_loop chs name MIN_VALUE alpha beta spaces verbose of
              (v, out, calls) \<Rightarrow>
                (v, entered @ out @ (if verbose then [Returning spaces name v] else []),
                 Node name chs # calls))
         else
           (case min_loop chs name MAX_VALUE alpha beta spaces verbose of
              (v, out, calls) \<Rightarrow>
                (v, entered @ out @ (if verbose then [Returning spaces name v] else []),
                 Node name chs # calls)))"
| "max_loop [] name v alpha beta spaces verbose = (v, [], [])"
| "max_loop (ch # rest) name v alpha beta spaces verbose =
     (case alpha_beta ch alpha beta False (indent spaces) True of
        (ab, out1, calls1) \<Rightarrow>
          (let v' = max v ab;
               out2 = (if alpha < v' \<and> verbose then [Updating_alpha spaces name alpha v'] else []);
               alpha' = (if alpha < v' then v' else alpha)
           in if beta \<le> alpha' then
                (v', out1 @ out2 @ (if verbose then [BETA_cutoff spaces alpha' beta] else []),
                 calls1)
              else
                (case max_loop rest name v' alpha' beta spaces verbose of
                   (r, out3, calls3) \<Rightarrow> (r, out1 @ out2 @ out3, calls1 @ calls3))))"
| "min_loop [] name v alpha beta spaces verbose = (v, [], [])"
| "min_loop (ch # rest) name v alpha beta spaces verbose =
     (case alpha_beta ch alpha beta True (indent spaces) True of
        (ab, out1, calls1) \<Rightarrow>
          (let v' = min ab v;
               out2 = (if v' < beta \<and> verbose then [Updating_beta spaces name alpha v'] else []);
               beta' = (if v' < beta then v' else beta)
           in if beta' \<le> alpha then
                (v', out1 @ out2 @ (if verbose then [ALPHA_cutoff spaces alpha beta'] else []),
                 calls1)
              else
                (case min_loop rest name v' alpha beta' spaces verbose of
                   (r, out3, calls3) \<Rightarrow> (r, out1 @ out2 @ out3, calls1 @ calls3))))"
  by pat_completeness auto

termination
  by (relation "measure (\<lambda>x. case x of
         Inl (node, _) \<Rightarrow> size node
       | Inr (Inl (chs, _)) \<Rightarrow> size_list size chs
       | Inr (Inr (chs, _)) \<Rightarrow> size_list size chs)") auto

definition alpha_beta_root :: "node \<Rightarrow> bool \<Rightarrow> int \<times> event list \<times> node list" where
  "alpha_beta_root node is_max = alpha_beta node MIN_VALUE MAX_VALUE is_max [] True"

section \<open>Tree generation (src/main.py, lines 36-72)\<close>

text \<open>
  The exceptions the generator can raise: \<^verbatim>\<open>leaf_values[0]\<close> on an empty list raises
  \<^verbatim>\<open>IndexError\<close>, and \<^verbatim>\<open>chr\<close> raises \<^verbatim>\<open>ValueError\<close> outside
  \<^verbatim>\<open>range(0x110000)\<close>.
\<close>

datatype error = IndexError | ValueError

definition py_chr :: "int \<Rightarrow> error + nat" where
  "py_chr i = (if 0 \<le> i \<and> i < 1114112 then Inr (nat i) else Inl ValueError)"

text \<open>
  The state that \<^verbatim>\<open>gen_tree\<close> mutates: the list \<^verbatim>\<open>leaf_values\<close> (\<open>None\<close> is Python's
  \<^verbatim>\<open>None\<close>, the request for random leaves), which every recursive call shares and
  drains from the front, and the number of draws made so far from numpy's generator.
  The generator's stream \<open>rnd\<close> and Python's \<^verbatim>\<open>str.upper\<close> are library code and
  are parameters of the model.

  \<^verbatim>\<open>gen_tree\<close> recurses on \<^verbatim>\<open>depth - 1\<close> until \<^verbatim>\<open>depth == 0\<close>, which a negative
  depth never reaches: the first argument \<open>fuel\<close> bounds the nesting of calls, and
  \<open>None\<close> is the run that needs a deeper nesting than \<open>fuel\<close>. A run that ends gives
  the exception or the node, and the state it leaves behind. \<open>gen_children\<close> is the
  loop \<^verbatim>\<open>for i in range(br_factor)\<close> on the indices still to come.
\<close>

type_synonym gen_state = "int list option \<times> nat"

function (sequential) gen_tree :: "(nat \<Rightarrow> int) \<Rightarrow> (pystr \<Rightarrow> pystr) \<Rightarrow> nat \<Rightarrow> int \<Rightarrow> bool \<Rightarrow> int \<Rightarrow> pystr \<Rightarrow> gen_state
    \<Rightarrow> ((error + node) \<times> gen_state) option"
and gen_children :: "(nat \<Rightarrow> int) \<Rightarrow> (pystr \<Rightarrow> pystr) \<Rightarrow> nat \<Rightarrow> int list \<Rightarrow> int \<Rightarrow> bool \<Rightarrow> int \<Rightarrow> pystr \<Rightarrow> gen_state
    \<Rightarrow> ((error + node list) \<times> gen_state) option"
where
  "gen_tree rnd upper 0 depth is_max br_factor name st = None"
| "gen_tree rnd upper (Suc fuel) depth is_max br_factor name (leaf_values, drawn) =
     (if depth = 0 then
        (case leaf_values of
           None \<Rightarrow> Some (Inr (LeafNode name (rnd drawn)), (None, Suc drawn))
         | Some [] \<Rightarrow> Some (Inl IndexError, (Some [], drawn))
         | Some (val # rest) \<Rightarrow> Some (Inr (LeafNode name val), (Some rest, drawn)))
      else
        (case gen_children rnd upper fuel (map int [0..<nat br_factor]) depth is_max br_factor name
                (leaf_values, drawn) of
           None \<Rightarrow> None
         | Some (Inl e, st') \<Rightarrow> Some (Inl e, st')
         | Some (Inr child_nodes, st') \<Rightarrow> Some (Inr (Node name child_nodes), st')))"
| "gen_children rnd upper fuel [] depth is_max br_factor name st = Some (Inr [], st)"
| "gen_children rnd upper fuel (i # more) depth is_max br_factor name st =
     (case py_chr (97 + i) of
        Inl e \<Rightarrow> Some (Inl e, st)
      | Inr c \<Rightarrow>
          (let child_suffix = (if \<not> is_max then upper [c] else [c]);
               child_name = name @ [45] @ child_suffix
           in case gen_tree rnd upper fuel (depth - 1) (\<not> is_max) br_factor child_name st of
                None \<Rightarrow> None
              | Some (Inl e, st') \<Rightarrow> Some (Inl e, st')
              | Some (Inr child_node, st') \<Rightarrow>
                  (case gen_children rnd upper fuel more depth is_max br_factor name st' of
                     None \<Rightarrow> None
                   | Some (Inl e, st'') \<Rightarrow> Some (Inl e, st'')
                   | Some (Inr child_nodes, st'') \<Rightarrow> Some (Inr (child_node # child_nodes), st''))))"
  by pat_completeness auto

termination
  by (relation "measures
        [\<lambda>x. case x of Inl (rnd, upper, fuel, _) \<Rightarrow> fuel | Inr (rnd, upper, fuel, _) \<Rightarrow> fuel,
         \<lambda>x. case x of Inl _ \<Rightarrow> 0 | Inr (rnd, upper, fuel, more, _) \<Rightarrow> Suc (length more)]") auto

section \<open>Observations on trees\<close>

text \<open>The evals of the leaves, left to right (the order of a pre-order traversal).\<close>

fun leaves :: "node \<Rightarrow> int list" where
  "leaves (LeafNode name eval) = [eval]"
| "leaves (Node name chs) = concat (map leaves chs)"

text \<open>The depth of every leaf below the root, left to right.\<close>

fun leaf_depths :: "node \<Rightarrow> nat list" where
  "leaf_depths (LeafNode name eval) = [0]"
| "leaf_depths (Node name chs) = map Suc (concat (map leaf_depths chs))"

text \<open>Every internal node has exactly \<open>b\<close> children.\<close>

fun all_arity :: "nat \<Rightarrow> node \<Rightarrow> bool" where
  "all_arity b (LeafNode name eval) = True"
| "all_arity b (Node name chs) = (length chs = b \<and> list_all (all_arity b) chs)"

text \<open>Every internal node has at least one child.\<close>

fun well_formed :: "node \<Rightarrow> bool" where
  "well_formed (LeafNode name eval) = True"
| "well_formed (Node name chs) = (chs \<noteq> [] \<and> list_all well_formed chs)"

definition leaves_in_range :: "node \<Rightarrow> bool" where
  "leaves_in_range t = list_all (\<lambda>e. MIN_VALUE \<le> e \<and> e \<le> MAX_VALUE) (leaves t)"

definition leaves_strictly_in_range :: "node \<Rightarrow> bool" where
  "leaves_strictly_in_range t = list_all (\<lambda>e. MIN_VALUE < e \<and> e < MAX_VALUE) (leaves t)"

section \<open>The exhaustive evaluation of the specification\<close>

text \<open>
  The specification compares the search with "an exhaustive min/max evaluation (no
  pruning)": a leaf has its stored value, a maximizing node the greatest and a
  minimizing node the least of the values of all its children, which are evaluated for
  the other player. For a node without children the specification's initial value
  stands (minus infinity, "practically \<^verbatim>\<open>MIN_VALUE\<close>", for a maximizing node, and
  \<^verbatim>\<open>MAX_VALUE\<close> for a minimizing one). This definition is written from the
  specification; the program has no such function.
\<close>

fun minimax :: "node \<Rightarrow> bool \<Rightarrow> int" where
  "minimax (LeafNode name eval) is_max = eval"
| "minimax (Node name chs) is_max =
     (if chs = [] then (if is_max then MIN_VALUE else MAX_VALUE)
      else if is_max then Max (set (map (\<lambda>ch. minimax ch False) chs))
      else Min (set (map (\<lambda>ch. minimax ch True) chs)))"

section \<open>Definitions used in the statements\<close>

text \<open>
  What a search with the window \<open>(a, b)\<close> guarantees about its result \<open>r\<close> when the
  exhaustive value is \<open>m\<close>: a result at or below \<open>a\<close> is an upper bound of \<open>m\<close>, a
  result at or above \<open>b\<close> is a lower bound, and a result strictly inside is exact.
\<close>

definition agrees :: "int \<Rightarrow> int \<Rightarrow> int \<Rightarrow> int \<Rightarrow> bool" where
  "agrees a b m r \<longleftrightarrow> (r \<le> a \<longrightarrow> m \<le> r) \<and> (a < r \<and> r < b \<longrightarrow> r = m) \<and> (b \<le> r \<longrightarrow> r \<le> m)"

text \<open>
  The tree of the cut-off scenario of the specification: depth 2, branching factor 2,
  root name \<^verbatim>\<open>A\<close>, leaf values 3, 5, 2, 9, maximizing root. The names are those
  \<^verbatim>\<open>gen_tree\<close> builds: \<^verbatim>\<open>A-a\<close>, \<^verbatim>\<open>A-b\<close> below the root and, below these
  minimizing nodes, the upper-cased suffixes.
\<close>

definition cutoff_example :: "(pystr \<Rightarrow> pystr) \<Rightarrow> node" where
  "cutoff_example upper =
     Node [65]
       [Node [65, 45, 97]
          [LeafNode ([65, 45, 97, 45] @ upper [97]) 3, LeafNode ([65, 45, 97, 45] @ upper [98]) 5],
        Node [65, 45, 98]
          [LeafNode ([65, 45, 98, 45] @ upper [97]) 2, LeafNode ([65, 45, 98, 45] @ upper [98]) 9]]"

text \<open>The events that report a cut-off, and the evals of the leaves among the calls.\<close>

fun is_cutoff :: "event \<Rightarrow> bool" where
  "is_cutoff (BETA_cutoff spaces alpha beta) = True"
| "is_cutoff (ALPHA_cutoff spaces alpha beta) = True"
| "is_cutoff e = False"

fun evaluated_leaves :: "node list \<Rightarrow> int list" where
  "evaluated_leaves [] = []"
| "evaluated_leaves (LeafNode name eval # calls) = eval # evaluated_leaves calls"
| "evaluated_leaves (Node name chs # calls) = evaluated_leaves calls"

section \<open>The value computed by the loops\<close>

lemma fst_max_loop_Cons:
  "fst (max_loop (ch # rest) name v a b sp vb) =
     (let ab = fst (alpha_beta ch a b False (indent sp) True);
          v' = max v ab;
          a' = (if a < v' then v' else a)
      in if b \<le> a' then v' else fst (max_loop rest name v' a' b sp vb))"
  by (simp add: Let_def split: prod.splits)

lemma fst_min_loop_Cons:
  "fst (min_loop (ch # rest) name v a b sp vb) =
     (let ab = fst (alpha_beta ch a b True (indent sp) True);
          v' = min ab v;
          b' = (if v' < b then v' else b)
      in if b' \<le> a then v' else fst (min_loop rest name v' a b' sp vb))"
  by (simp add: Let_def split: prod.splits)

lemma fst_alpha_beta_Node:
  "fst (alpha_beta (Node name chs) a b is_max sp vb) =
     (if is_max then fst (max_loop chs name MIN_VALUE a b sp vb)
      else fst (min_loop chs name MAX_VALUE a b sp vb))"
  by (simp add: Let_def split: prod.splits)

text \<open>The loop variable \<^verbatim>\<open>v\<close> only grows in a maximizing node and only falls in a minimizing one.\<close>

lemma max_loop_ge: "v \<le> fst (max_loop chs name v a b sp vb)"
proof (induction chs arbitrary: v a)
  case Nil
  show ?case by simp
next
  case (Cons ch rest)
  define v' where "v' = max v (fst (alpha_beta ch a b False (indent sp) True))"
  define a' where "a' = (if a < v' then v' else a)"
  have "v' \<le> fst (max_loop rest name v' a' b sp vb)" by (rule Cons.IH)
  moreover have "v \<le> v'" by (simp add: v'_def)
  ultimately show ?case
    unfolding fst_max_loop_Cons Let_def v'_def [symmetric] a'_def [symmetric] by simp
qed

lemma min_loop_le: "fst (min_loop chs name v a b sp vb) \<le> v"
proof (induction chs arbitrary: v b)
  case Nil
  show ?case by simp
next
  case (Cons ch rest)
  define v' where "v' = min (fst (alpha_beta ch a b True (indent sp) True)) v"
  define b' where "b' = (if v' < b then v' else b)"
  have "fst (min_loop rest name v' a b' sp vb) \<le> v'" by (rule Cons.IH)
  moreover have "v' \<le> v" by (simp add: v'_def)
  ultimately show ?case
    unfolding fst_min_loop_Cons Let_def v'_def [symmetric] b'_def [symmetric] by simp
qed

lemma fold_max_max: "fold max xs (max x (y::int)) = max x (fold max xs y)"
proof (induction xs arbitrary: y)
  case Nil
  show ?case by simp
next
  case (Cons a xs)
  have "fold max (a # xs) (max x y) = fold max xs (max x (max a y))"
    by (simp add: max.left_commute)
  also have "\<dots> = max x (fold max xs (max a y))"
    by (rule Cons.IH)
  finally show ?case by simp
qed

lemma fold_min_min: "fold min xs (min x (y::int)) = min x (fold min xs y)"
proof (induction xs arbitrary: y)
  case Nil
  show ?case by simp
next
  case (Cons a xs)
  have "fold min (a # xs) (min x y) = fold min xs (min x (min a y))"
    by (simp add: min.left_commute)
  also have "\<dots> = min x (fold min xs (min a y))"
    by (rule Cons.IH)
  finally show ?case by simp
qed

lemma fold_max_ge: "(y::int) \<le> fold max xs y"
  by (induction xs arbitrary: y) (simp_all add: fold_max_max le_max_iff_disj)

lemma fold_min_le: "fold min xs y \<le> (y::int)"
  by (induction xs arbitrary: y) (simp_all add: fold_min_min min_le_iff_disj)

text \<open>
  One iteration of each loop, as arithmetic: \<open>mc\<close> is the exhaustive value of the child,
  \<open>ab\<close> what the search returned for it, \<open>R\<close> the exhaustive value of the rest of
  the loop and \<open>r\<close> what the rest of the loop returned.
\<close>

lemma max_step:
  fixes a b v ab mc R r :: int
  assumes "agrees a b mc ab" and "v \<le> a" and "a < b" and "v \<le> R"
    and "v' = max v ab" and "a' = (if a < v' then v' else a)"
    and "\<not> b \<le> a'" and "agrees a' b (max ab R) r" and "v' \<le> r"
  shows "agrees a b (max mc R) r"
  using assms unfolding agrees_def by (auto simp: max_def split: if_splits)

lemma max_stop:
  fixes a b v ab mc R :: int
  assumes "agrees a b mc ab" and "v \<le> a" and "a < b" and "v \<le> R"
    and "v' = max v ab" and "a' = (if a < v' then v' else a)"
    and "b \<le> a'"
  shows "agrees a b (max mc R) v'"
  using assms unfolding agrees_def by (auto simp: max_def split: if_splits)

lemma min_step:
  fixes a b v ab mc R r :: int
  assumes "agrees a b mc ab" and "b \<le> v" and "a < b" and "R \<le> v"
    and "v' = min ab v" and "b' = (if v' < b then v' else b)"
    and "\<not> b' \<le> a" and "agrees a b' (min ab R) r" and "r \<le> v'"
  shows "agrees a b (min mc R) r"
  using assms unfolding agrees_def by (auto simp: min_def split: if_splits)

lemma min_stop:
  fixes a b v ab mc R :: int
  assumes "agrees a b mc ab" and "b \<le> v" and "a < b" and "R \<le> v"
    and "v' = min ab v" and "b' = (if v' < b then v' else b)"
    and "b' \<le> a"
  shows "agrees a b (min mc R) v'"
  using assms unfolding agrees_def by (auto simp: min_def split: if_splits)

lemma max_loop_agrees:
  assumes kids: "\<And>ch a b sp vb. ch \<in> set chs \<Longrightarrow> MIN_VALUE \<le> a \<Longrightarrow> a < b \<Longrightarrow> b \<le> MAX_VALUE \<Longrightarrow>
             agrees a b (minimax ch False) (fst (alpha_beta ch a b False sp vb))"
    and "v \<le> a" and "a < b" and "MIN_VALUE \<le> a" and "b \<le> MAX_VALUE"
  shows "agrees a b (fold max (map (\<lambda>ch. minimax ch False) chs) v)
           (fst (max_loop chs name v a b sp vb))"
  using assms
proof (induction chs arbitrary: v a)
  case Nil
  then show ?case by (simp add: agrees_def)
next
  case (Cons ch rest)
  define ab where "ab = fst (alpha_beta ch a b False (indent sp) True)"
  define v' where "v' = max v ab"
  define a' where "a' = (if a < v' then v' else a)"
  define mc where "mc = minimax ch False"
  define R where "R = fold max (map (\<lambda>ch. minimax ch False) rest) v"
  have M: "fold max (map (\<lambda>ch. minimax ch False) (ch # rest)) v = max mc R"
    by (simp add: mc_def R_def fold_max_max)
  have res: "fst (max_loop (ch # rest) name v a b sp vb) =
      (if b \<le> a' then v' else fst (max_loop rest name v' a' b sp vb))"
    unfolding fst_max_loop_Cons Let_def ab_def [symmetric] v'_def [symmetric] a'_def [symmetric] ..
  have c: "agrees a b mc ab"
    unfolding mc_def ab_def using Cons.prems by simp
  have vR: "v \<le> R" unfolding R_def by (rule fold_max_ge)
  show ?case
  proof (cases "b \<le> a'")
    case True
    have "agrees a b (max mc R) v'"
      using c \<open>v \<le> a\<close> \<open>a < b\<close> vR v'_def a'_def True by (rule max_stop)
    with True show ?thesis by (simp only: M res if_True)
  next
    case False
    define r where "r = fst (max_loop rest name v' a' b sp vb)"
    have va: "v' \<le> a'" by (simp add: a'_def)
    have ab': "a' < b" using False by simp
    have a'min: "MIN_VALUE \<le> a'" using \<open>MIN_VALUE \<le> a\<close> by (simp add: a'_def)
    have "agrees a' b (fold max (map (\<lambda>ch. minimax ch False) rest) v') r"
      unfolding r_def using Cons.prems(1) va ab' a'min \<open>b \<le> MAX_VALUE\<close>
      by (intro Cons.IH) simp_all
    then have ih: "agrees a' b (max ab R) r"
      by (simp add: v'_def R_def fold_max_max max.commute)
    have ge: "v' \<le> r" unfolding r_def by (rule max_loop_ge)
    have "agrees a b (max mc R) r"
      using c \<open>v \<le> a\<close> \<open>a < b\<close> vR v'_def a'_def False ih ge by (rule max_step)
    with False show ?thesis by (simp only: M res r_def if_False)
  qed
qed

lemma min_loop_agrees:
  assumes kids: "\<And>ch a b sp vb. ch \<in> set chs \<Longrightarrow> MIN_VALUE \<le> a \<Longrightarrow> a < b \<Longrightarrow> b \<le> MAX_VALUE \<Longrightarrow>
             agrees a b (minimax ch True) (fst (alpha_beta ch a b True sp vb))"
    and "b \<le> v" and "a < b" and "MIN_VALUE \<le> a" and "b \<le> MAX_VALUE"
  shows "agrees a b (fold min (map (\<lambda>ch. minimax ch True) chs) v)
           (fst (min_loop chs name v a b sp vb))"
  using assms
proof (induction chs arbitrary: v b)
  case Nil
  then show ?case by (simp add: agrees_def)
next
  case (Cons ch rest)
  define ab where "ab = fst (alpha_beta ch a b True (indent sp) True)"
  define v' where "v' = min ab v"
  define b' where "b' = (if v' < b then v' else b)"
  define mc where "mc = minimax ch True"
  define R where "R = fold min (map (\<lambda>ch. minimax ch True) rest) v"
  have M: "fold min (map (\<lambda>ch. minimax ch True) (ch # rest)) v = min mc R"
    by (simp add: mc_def R_def fold_min_min)
  have res: "fst (min_loop (ch # rest) name v a b sp vb) =
      (if b' \<le> a then v' else fst (min_loop rest name v' a b' sp vb))"
    unfolding fst_min_loop_Cons Let_def ab_def [symmetric] v'_def [symmetric] b'_def [symmetric] ..
  have c: "agrees a b mc ab"
    unfolding mc_def ab_def using Cons.prems by simp
  have vR: "R \<le> v" unfolding R_def by (rule fold_min_le)
  show ?case
  proof (cases "b' \<le> a")
    case True
    have "agrees a b (min mc R) v'"
      using c \<open>b \<le> v\<close> \<open>a < b\<close> vR v'_def b'_def True by (rule min_stop)
    with True show ?thesis by (simp only: M res if_True)
  next
    case False
    define r where "r = fst (min_loop rest name v' a b' sp vb)"
    have vb': "b' \<le> v'" by (simp add: b'_def)
    have ab': "a < b'" using False by simp
    have b'max: "b' \<le> MAX_VALUE" using \<open>b \<le> MAX_VALUE\<close> by (simp add: b'_def)
    have "agrees a b' (fold min (map (\<lambda>ch. minimax ch True) rest) v') r"
      unfolding r_def using Cons.prems(1) vb' ab' b'max \<open>MIN_VALUE \<le> a\<close>
      by (intro Cons.IH) simp_all
    then have ih: "agrees a b' (min ab R) r"
      by (simp add: v'_def R_def fold_min_min)
    have le: "r \<le> v'" unfolding r_def by (rule min_loop_le)
    have "agrees a b (min mc R) r"
      using c \<open>b \<le> v\<close> \<open>a < b\<close> vR v'_def b'_def False ih le by (rule min_step)
    with False show ?thesis by (simp only: M res r_def if_False)
  qed
qed

section \<open>The exhaustive evaluation and the search\<close>

lemma leaves_in_range_Node:
  "leaves_in_range (Node name chs) \<longleftrightarrow> (\<forall>ch\<in>set chs. leaves_in_range ch)"
  by (auto simp: leaves_in_range_def list_all_iff)

lemma MIN_le_MAX: "MIN_VALUE \<le> MAX_VALUE"
  by (simp add: MIN_VALUE_def MAX_VALUE_def)

lemma minimax_in_range:
  "leaves_in_range t \<Longrightarrow> MIN_VALUE \<le> minimax t is_max \<and> minimax t is_max \<le> MAX_VALUE"
proof (induction t arbitrary: is_max)
  case (LeafNode name eval)
  then show ?case by (simp add: leaves_in_range_def)
next
  case (Node name chs)
  show ?case
  proof (cases "chs = []")
    case True
    then show ?thesis using MIN_le_MAX by simp
  next
    case False
    define S where "S = set (map (\<lambda>ch. minimax ch (\<not> is_max)) chs)"
    have fin: "finite S" and ne: "S \<noteq> {}" using False by (simp_all add: S_def)
    have rng: "\<forall>x\<in>S. MIN_VALUE \<le> x \<and> x \<le> MAX_VALUE"
      using Node.IH Node.prems by (auto simp: S_def leaves_in_range_Node)
    have "Max S \<in> S" and "Min S \<in> S" using fin ne by (rule Max_in, rule Min_in)
    with rng have "MIN_VALUE \<le> Max S \<and> Max S \<le> MAX_VALUE" and "MIN_VALUE \<le> Min S \<and> Min S \<le> MAX_VALUE"
      by blast+
    then show ?thesis using False by (cases is_max) (simp_all add: S_def)
  qed
qed

lemma minimax_Node_max:
  assumes "\<forall>ch\<in>set chs. MIN_VALUE \<le> minimax ch False"
  shows "minimax (Node name chs) True = fold max (map (\<lambda>ch. minimax ch False) chs) MIN_VALUE"
proof (cases chs)
  case Nil
  then show ?thesis by simp
next
  case (Cons ch rest)
  define ms where "ms = map (\<lambda>ch. minimax ch False) rest"
  have "MIN_VALUE \<le> minimax ch False" using assms Cons by simp
  then have absorb: "max (minimax ch False) MIN_VALUE = minimax ch False" by simp
  have "minimax (Node name chs) True = Max (set (minimax ch False # ms))"
    using Cons by (simp add: ms_def)
  also have "\<dots> = fold max ms (minimax ch False)"
    by (rule Max.set_eq_fold)
  also have "\<dots> = fold max (map (\<lambda>ch. minimax ch False) chs) MIN_VALUE"
    using Cons absorb by (simp add: ms_def)
  finally show ?thesis .
qed

lemma minimax_Node_min:
  assumes "\<forall>ch\<in>set chs. minimax ch True \<le> MAX_VALUE"
  shows "minimax (Node name chs) False = fold min (map (\<lambda>ch. minimax ch True) chs) MAX_VALUE"
proof (cases chs)
  case Nil
  then show ?thesis by simp
next
  case (Cons ch rest)
  define ms where "ms = map (\<lambda>ch. minimax ch True) rest"
  have "minimax ch True \<le> MAX_VALUE" using assms Cons by simp
  then have absorb: "min (minimax ch True) MAX_VALUE = minimax ch True" by simp
  have "minimax (Node name chs) False = Min (set (minimax ch True # ms))"
    using Cons by (simp add: ms_def)
  also have "\<dots> = fold min ms (minimax ch True)"
    by (rule Min.set_eq_fold)
  also have "\<dots> = fold min (map (\<lambda>ch. minimax ch True) chs) MAX_VALUE"
    using Cons absorb by (simp add: ms_def)
  finally show ?thesis .
qed

lemma alpha_beta_agrees:
  "leaves_in_range t \<Longrightarrow> MIN_VALUE \<le> a \<Longrightarrow> a < b \<Longrightarrow> b \<le> MAX_VALUE \<Longrightarrow>
     agrees a b (minimax t is_max) (fst (alpha_beta t a b is_max sp vb))"
proof (induction t arbitrary: a b is_max sp vb)
  case (LeafNode name eval)
  show ?case by (simp add: agrees_def)
next
  case (Node name chs)
  have kids: "\<forall>ch\<in>set chs. leaves_in_range ch"
    using Node.prems(1) by (simp add: leaves_in_range_Node)
  show ?case
  proof (cases is_max)
    case True
    have "agrees a b (fold max (map (\<lambda>ch. minimax ch False) chs) MIN_VALUE)
            (fst (max_loop chs name MIN_VALUE a b sp vb))"
      using Node.IH kids Node.prems(2-4) by (intro max_loop_agrees) simp_all
    moreover have "minimax (Node name chs) True = fold max (map (\<lambda>ch. minimax ch False) chs) MIN_VALUE"
      using kids minimax_in_range by (intro minimax_Node_max) blast
    ultimately show ?thesis using True by (simp only: fst_alpha_beta_Node if_True)
  next
    case False
    have "agrees a b (fold min (map (\<lambda>ch. minimax ch True) chs) MAX_VALUE)
            (fst (min_loop chs name MAX_VALUE a b sp vb))"
      using Node.IH kids Node.prems(2-4) by (intro min_loop_agrees) simp_all
    moreover have "minimax (Node name chs) False = fold min (map (\<lambda>ch. minimax ch True) chs) MAX_VALUE"
      using kids minimax_in_range by (intro minimax_Node_min) blast
    ultimately show ?thesis using False by (simp only: fst_alpha_beta_Node if_False)
  qed
qed

lemma root_value_minimax:
  assumes "leaves_in_range t"
  shows "fst (alpha_beta_root t is_max) = minimax t is_max"
proof -
  have "MIN_VALUE < MAX_VALUE" by (simp add: MIN_VALUE_def MAX_VALUE_def)
  then have "agrees MIN_VALUE MAX_VALUE (minimax t is_max) (fst (alpha_beta t MIN_VALUE MAX_VALUE is_max [] True))"
    using assms by (intro alpha_beta_agrees) simp_all
  moreover have "MIN_VALUE \<le> minimax t is_max \<and> minimax t is_max \<le> MAX_VALUE"
    using assms by (rule minimax_in_range)
  ultimately show ?thesis
    unfolding alpha_beta_root_def agrees_def by linarith
qed

lemma minimax_is_leaf: "well_formed t \<Longrightarrow> minimax t is_max \<in> set (leaves t)"
proof (induction t arbitrary: is_max)
  case (LeafNode name eval)
  show ?case by simp
next
  case (Node name chs)
  then have ne: "chs \<noteq> []" and wf: "\<forall>ch\<in>set chs. well_formed ch"
    by (simp_all add: list_all_iff)
  define S where "S = set (map (\<lambda>ch. minimax ch (\<not> is_max)) chs)"
  have fin: "finite S" and ne': "S \<noteq> {}" using ne by (simp_all add: S_def)
  have sub: "S \<subseteq> set (leaves (Node name chs))"
    using Node.IH wf by (auto simp: S_def)
  have "Max S \<in> S" and "Min S \<in> S" using fin ne' by (rule Max_in, rule Min_in)
  with sub have "Max S \<in> set (leaves (Node name chs))" and "Min S \<in> set (leaves (Node name chs))"
    by blast+
  then show ?case using ne by (cases is_max) (simp_all add: S_def)
qed

lemma max_loop_verbose: "fst (max_loop chs name v a b sp True) = fst (max_loop chs name v a b sp False)"
proof (induction chs arbitrary: v a)
  case Nil
  show ?case by simp
next
  case (Cons ch rest)
  show ?case unfolding fst_max_loop_Cons Let_def by (simp only: Cons.IH)
qed

lemma min_loop_verbose: "fst (min_loop chs name v a b sp True) = fst (min_loop chs name v a b sp False)"
proof (induction chs arbitrary: v b)
  case Nil
  show ?case by simp
next
  case (Cons ch rest)
  show ?case unfolding fst_min_loop_Cons Let_def by (simp only: Cons.IH)
qed

section \<open>Runs of the generator\<close>

lemma py_chr_ok: "0 \<le> i \<Longrightarrow> i < 1114015 \<Longrightarrow> py_chr (97 + i) = Inr (nat (97 + i))"
  by (simp add: py_chr_def)

lemma concat_all_replicate:
  "(\<forall>x\<in>set xs. f x = replicate n d) \<Longrightarrow> concat (map f xs) = replicate (length xs * n) d"
  by (induction xs) (simp_all add: replicate_add)

lemma gen_children_step:
  assumes "py_chr (97 + i) = Inr c"
    and "gen_tree rnd upper fuel (depth - 1) (\<not> is_max) br
           (name @ [45] @ (if \<not> is_max then upper [c] else [c])) st = Some (Inr t, st')"
    and "gen_children rnd upper fuel more depth is_max br name st' = Some (Inr chs, st'')"
  shows "gen_children rnd upper fuel (i # more) depth is_max br name st = Some (Inr (t # chs), st'')"
  using assms by (auto simp: Let_def split: if_splits)

lemma gen_children_child_error:
  assumes "py_chr (97 + i) = Inr c"
    and "gen_tree rnd upper fuel (depth - 1) (\<not> is_max) br
           (name @ [45] @ (if \<not> is_max then upper [c] else [c])) st = Some (Inl e, st')"
  shows "gen_children rnd upper fuel (i # more) depth is_max br name st = Some (Inl e, st')"
  using assms by (auto simp: Let_def split: if_splits)

lemma gen_children_later_error:
  assumes "py_chr (97 + i) = Inr c"
    and "gen_tree rnd upper fuel (depth - 1) (\<not> is_max) br
           (name @ [45] @ (if \<not> is_max then upper [c] else [c])) st = Some (Inr t, st')"
    and "gen_children rnd upper fuel more depth is_max br name st' = Some (Inl e, st'')"
  shows "gen_children rnd upper fuel (i # more) depth is_max br name st = Some (Inl e, st'')"
  using assms by (auto simp: Let_def split: if_splits)

text \<open>
  The loop over the indices \<open>more\<close>, when every child at the depth below takes \<open>n\<close>
  values and comes back as a full subtree.
\<close>

lemma gen_children_ok:
  assumes tree: "\<And>name is_max' vs k. n \<le> length vs \<Longrightarrow>
        \<exists>t. gen_tree rnd upper fuel (depth - 1) is_max' br name (Some vs, k)
               = Some (Inr t, (Some (drop n vs), k))
           \<and> leaves t = take n vs \<and> leaf_depths t = replicate n d \<and> all_arity B t"
    and idx: "\<forall>i\<in>set more. 0 \<le> i \<and> i < 1114015"
    and len: "length more * n \<le> length vs"
  shows "\<exists>chs. gen_children rnd upper fuel more depth is_max br name (Some vs, k)
                 = Some (Inr chs, (Some (drop (length more * n) vs), k))
           \<and> length chs = length more
           \<and> concat (map leaves chs) = take (length more * n) vs
           \<and> (\<forall>c\<in>set chs. leaf_depths c = replicate n d \<and> all_arity B c)"
  using idx len
proof (induction more arbitrary: vs)
  case Nil
  show ?case by simp
next
  case (Cons i more)
  have i: "py_chr (97 + i) = Inr (nat (97 + i))"
    using Cons.prems(1) by (intro py_chr_ok) simp_all
  define child_name where
    "child_name = name @ [45] @ (if \<not> is_max then upper [nat (97 + i)] else [nat (97 + i)])"
  have n: "n \<le> length vs" and rest: "length more * n \<le> length (drop n vs)"
    using Cons.prems(2) by simp_all
  obtain t where t: "gen_tree rnd upper fuel (depth - 1) (\<not> is_max) br child_name (Some vs, k)
        = Some (Inr t, (Some (drop n vs), k))"
      and lt: "leaves t = take n vs" and dt: "leaf_depths t = replicate n d" and at: "all_arity B t"
    using tree [OF n] by blast
  obtain chs where chs: "gen_children rnd upper fuel more depth is_max br name (Some (drop n vs), k)
        = Some (Inr chs, (Some (drop (length more * n) (drop n vs)), k))"
      and lc: "length chs = length more"
      and cc: "concat (map leaves chs) = take (length more * n) (drop n vs)"
      and ac: "\<forall>c\<in>set chs. leaf_depths c = replicate n d \<and> all_arity B c"
    using Cons.IH [OF _ rest] Cons.prems(1) by auto
  have "gen_children rnd upper fuel (i # more) depth is_max br name (Some vs, k)
      = Some (Inr (t # chs), (Some (drop (length more * n) (drop n vs)), k))"
    using i t [unfolded child_name_def] chs by (rule gen_children_step)
  then have run: "gen_children rnd upper fuel (i # more) depth is_max br name (Some vs, k)
      = Some (Inr (t # chs), (Some (drop (length (i # more) * n) vs), k))"
    by (simp add: add.commute)
  have "concat (map leaves (t # chs)) = take (length (i # more) * n) vs"
    using lt cc by (simp add: take_add)
  with run lc dt at ac show ?case by auto
qed

lemma gen_tree_ok:
  assumes br: "1 \<le> br" "br \<le> 1114015"
  shows "nat br ^ d \<le> length vs \<Longrightarrow> d < fuel \<Longrightarrow>
     \<exists>t. gen_tree rnd upper fuel (int d) is_max br name (Some vs, k)
            = Some (Inr t, (Some (drop (nat br ^ d) vs), k))
        \<and> leaves t = take (nat br ^ d) vs
        \<and> leaf_depths t = replicate (nat br ^ d) d
        \<and> all_arity (nat br) t"
proof (induction d arbitrary: fuel is_max name vs k)
  case 0
  then obtain f where f: "fuel = Suc f" by (cases fuel) simp_all
  from 0 obtain v vs' where vs: "vs = v # vs'" by (cases vs) simp_all
  show ?case by (simp add: f vs)
next
  case (Suc d)
  then obtain f where f: "fuel = Suc f" and df: "d < f" by (cases fuel) simp_all
  define more where "more = map int [0..<nat br]"
  have lm: "length more = nat br" by (simp add: more_def)
  have idx: "\<forall>i\<in>set more. 0 \<le> i \<and> i < 1114015"
    using br by (auto simp: more_def)
  have len: "length more * nat br ^ d \<le> length vs"
    using Suc.prems(1) by (simp add: lm)
  have sub: "\<exists>t. gen_tree rnd upper f (int (Suc d) - 1) is_max' br name' (Some vs', k')
               = Some (Inr t, (Some (drop (nat br ^ d) vs'), k'))
           \<and> leaves t = take (nat br ^ d) vs' \<and> leaf_depths t = replicate (nat br ^ d) d
           \<and> all_arity (nat br) t"
    if "nat br ^ d \<le> length vs'" for name' is_max' vs' k'
    using Suc.IH [OF that df] by simp
  obtain chs where chs: "gen_children rnd upper f more (int (Suc d)) is_max br name (Some vs, k)
        = Some (Inr chs, (Some (drop (length more * nat br ^ d) vs), k))"
      and lc: "length chs = length more"
      and cc: "concat (map leaves chs) = take (length more * nat br ^ d) vs"
      and ac: "\<forall>c\<in>set chs. leaf_depths c = replicate (nat br ^ d) d \<and> all_arity (nat br) c"
    using gen_children_ok [of "nat br ^ d" rnd upper f "int (Suc d)" br d "nat br" more vs is_max name k,
        OF sub idx len]
    by blast
  have run: "gen_tree rnd upper fuel (int (Suc d)) is_max br name (Some vs, k)
      = Some (Inr (Node name chs), (Some (drop (nat br ^ Suc d) vs), k))"
    unfolding f using chs by (simp add: more_def [symmetric] lm del: int_Suc of_nat_Suc)
  have dep: "concat (map leaf_depths chs) = replicate (length chs * nat br ^ d) d"
    using ac by (intro concat_all_replicate) simp
  have "leaves (Node name chs) = take (nat br ^ Suc d) vs"
    using cc by (simp add: lm)
  moreover have "leaf_depths (Node name chs) = replicate (nat br ^ Suc d) (Suc d)"
    using dep by (simp add: lc lm)
  moreover have "all_arity (nat br) (Node name chs)"
    using ac lc lm by (simp add: list_all_iff)
  ultimately show ?case using run by blast
qed

lemma gen_children_exhausted:
  assumes ok: "\<And>name is_max' vs k. n \<le> length vs \<Longrightarrow>
        \<exists>t. gen_tree rnd upper fuel (depth - 1) is_max' br name (Some vs, k)
               = Some (Inr t, (Some (drop n vs), k))"
    and bad: "\<And>name is_max' vs k. length vs < n \<Longrightarrow>
        gen_tree rnd upper fuel (depth - 1) is_max' br name (Some vs, k)
          = Some (Inl IndexError, (Some [], k))"
    and idx: "\<forall>i\<in>set more. 0 \<le> i \<and> i < 1114015"
    and len: "length vs < length more * n"
  shows "gen_children rnd upper fuel more depth is_max br name (Some vs, k)
           = Some (Inl IndexError, (Some [], k))"
  using idx len
proof (induction more arbitrary: vs)
  case Nil
  then show ?case by simp
next
  case (Cons i more)
  have i: "py_chr (97 + i) = Inr (nat (97 + i))"
    using Cons.prems(1) by (intro py_chr_ok) simp_all
  show ?case
  proof (cases "length vs < n")
    case True
    show ?thesis using i bad [OF True] by (rule gen_children_child_error)
  next
    case False
    then have n: "n \<le> length vs" by simp
    obtain t where t: "gen_tree rnd upper fuel (depth - 1) (\<not> is_max) br
          (name @ [45] @ (if \<not> is_max then upper [nat (97 + i)] else [nat (97 + i)])) (Some vs, k)
        = Some (Inr t, (Some (drop n vs), k))"
      using ok [OF n] by blast
    have "length (drop n vs) < length more * n"
      using Cons.prems(2) n by simp
    then have "gen_children rnd upper fuel more depth is_max br name (Some (drop n vs), k)
        = Some (Inl IndexError, (Some [], k))"
      using Cons.prems(1) by (intro Cons.IH) simp_all
    with i t show ?thesis by (rule gen_children_later_error)
  qed
qed

lemma gen_tree_exhausted:
  assumes br: "1 \<le> br" "br \<le> 1114015"
  shows "length vs < nat br ^ d \<Longrightarrow> d < fuel \<Longrightarrow>
     gen_tree rnd upper fuel (int d) is_max br name (Some vs, k)
       = Some (Inl IndexError, (Some [], k))"
proof (induction d arbitrary: fuel is_max name vs k)
  case 0
  then obtain f where f: "fuel = Suc f" by (cases fuel) simp_all
  from 0 have vs: "vs = []" by simp
  show ?case by (simp add: f vs)
next
  case (Suc d)
  then obtain f where f: "fuel = Suc f" and df: "d < f" by (cases fuel) simp_all
  define more where "more = map int [0..<nat br]"
  have lm: "length more = nat br" by (simp add: more_def)
  have idx: "\<forall>i\<in>set more. 0 \<le> i \<and> i < 1114015"
    using br by (auto simp: more_def)
  have len: "length vs < length more * nat br ^ d"
    using Suc.prems(1) by (simp add: lm)
  have ok: "\<exists>t. gen_tree rnd upper f (int (Suc d) - 1) is_max' br name' (Some vs', k')
               = Some (Inr t, (Some (drop (nat br ^ d) vs'), k'))"
    if "nat br ^ d \<le> length vs'" for name' is_max' vs' k'
    using gen_tree_ok [OF br that df, of rnd upper is_max' name' k'] by auto
  have bad: "gen_tree rnd upper f (int (Suc d) - 1) is_max' br name' (Some vs', k')
               = Some (Inl IndexError, (Some [], k'))"
    if "length vs' < nat br ^ d" for name' is_max' vs' k'
    using Suc.IH [OF that df] by simp
  have "gen_children rnd upper f more (int (Suc d)) is_max br name (Some vs, k)
      = Some (Inl IndexError, (Some [], k))"
    using ok bad idx len by (rule gen_children_exhausted)
  then show ?case
    unfolding f by (simp add: more_def [symmetric] del: int_Suc of_nat_Suc)
qed

lemma gen_tree_no_children:
  "depth \<noteq> 0 \<Longrightarrow> br \<le> 0 \<Longrightarrow>
     gen_tree rnd upper (Suc fuel) depth is_max br name st = Some (Inr (Node name []), st)"
  by (cases st) simp

lemma gen_tree_negative_depth:
  "depth < 0 \<Longrightarrow> 1 \<le> br \<Longrightarrow> gen_tree rnd upper fuel depth is_max br name st = None"
proof (induction fuel arbitrary: depth is_max name st)
  case 0
  show ?case by simp
next
  case (Suc fuel)
  obtain leaf_values k where st: "st = (leaf_values, k)" by (cases st)
  have "0 < nat br" using Suc.prems(2) by simp
  then have more: "map int [0..<nat br] = 0 # map int [Suc 0..<nat br]"
    by (simp add: upt_conv_Cons)
  have child: "gen_tree rnd upper fuel (depth - 1) (\<not> is_max) br name' st = None" for name'
    using Suc.prems by (intro Suc.IH) simp_all
  have "gen_children rnd upper fuel (0 # map int [Suc 0..<nat br]) depth is_max br name st = None"
    by (simp add: py_chr_def child Let_def)
  then show ?case
    using Suc.prems(1) unfolding st more [symmetric] by (simp add: more)
qed

text \<open>What a run that returns a node has consumed, and that it consults neither the
  random stream nor the count of draws.\<close>

lemma gen_children_Cons_Inr:
  assumes "gen_children rnd upper fuel (i # more) depth is_max br name st = Some (Inr chs, st'')"
  shows "\<exists>c t st' chs'. py_chr (97 + i) = Inr c
           \<and> gen_tree rnd upper fuel (depth - 1) (\<not> is_max) br
                (name @ [45] @ (if \<not> is_max then upper [c] else [c])) st = Some (Inr t, st')
           \<and> gen_children rnd upper fuel more depth is_max br name st' = Some (Inr chs', st'')
           \<and> chs = t # chs'"
  using assms
  by (auto simp: Let_def split: sum.splits option.splits prod.splits if_splits)

lemma gen_tree_Suc_Inr:
  assumes "gen_tree rnd upper (Suc fuel) depth is_max br name (Some vs, k) = Some (Inr t, st)"
  shows "(depth = 0 \<and> (\<exists>v rest. vs = v # rest \<and> t = LeafNode name v \<and> st = (Some rest, k)))
       \<or> (depth \<noteq> 0 \<and> (\<exists>chs. gen_children rnd upper fuel (map int [0..<nat br]) depth is_max br
                                  name (Some vs, k) = Some (Inr chs, st) \<and> t = Node name chs))"
  using assms
  by (auto split: sum.splits option.splits prod.splits if_splits list.splits)

lemma gen_children_prefix:
  assumes tree: "\<And>depth' is_max' name' vs' k' t st'.
        gen_tree rnd upper fuel depth' is_max' br name' (Some vs', k') = Some (Inr t, st') \<Longrightarrow>
        \<exists>rest. st' = (Some rest, k') \<and> vs' = leaves t @ rest
          \<and> (\<forall>rnd' k''. gen_tree rnd' upper fuel depth' is_max' br name' (Some vs', k'')
                 = Some (Inr t, (Some rest, k'')))"
  shows "gen_children rnd upper fuel more depth is_max br name (Some vs, k) = Some (Inr chs, st) \<Longrightarrow>
     \<exists>rest. st = (Some rest, k) \<and> vs = concat (map leaves chs) @ rest
       \<and> (\<forall>rnd' k'. gen_children rnd' upper fuel more depth is_max br name (Some vs, k')
              = Some (Inr chs, (Some rest, k')))"
proof (induction more arbitrary: vs chs)
  case Nil
  then show ?case by simp
next
  case (Cons i more)
  from gen_children_Cons_Inr [OF Cons.prems]
  obtain c t st' chs' where c: "py_chr (97 + i) = Inr c"
    and t: "gen_tree rnd upper fuel (depth - 1) (\<not> is_max) br
              (name @ [45] @ (if \<not> is_max then upper [c] else [c])) (Some vs, k) = Some (Inr t, st')"
    and r: "gen_children rnd upper fuel more depth is_max br name st' = Some (Inr chs', st)"
    and chs: "chs = t # chs'"
    by blast
  from tree [OF t] obtain mid where st': "st' = (Some mid, k)" and vs: "vs = leaves t @ mid"
    and t': "\<And>rnd' k'. gen_tree rnd' upper fuel (depth - 1) (\<not> is_max) br
              (name @ [45] @ (if \<not> is_max then upper [c] else [c])) (Some vs, k')
                = Some (Inr t, (Some mid, k'))"
    by blast
  from Cons.IH [OF r [unfolded st']] obtain rest where st: "st = (Some rest, k)"
    and mid: "mid = concat (map leaves chs') @ rest"
    and r': "\<And>rnd' k'. gen_children rnd' upper fuel more depth is_max br name (Some mid, k')
                = Some (Inr chs', (Some rest, k'))"
    by blast
  have "gen_children rnd' upper fuel (i # more) depth is_max br name (Some vs, k')
          = Some (Inr chs, (Some rest, k'))" for rnd' k'
    unfolding chs using c t' r' by (rule gen_children_step)
  moreover have "vs = concat (map leaves chs) @ rest"
    by (simp add: chs vs mid)
  ultimately show ?case using st by blast
qed

lemma gen_tree_prefix:
  "gen_tree rnd upper fuel depth is_max br name (Some vs, k) = Some (Inr t, st) \<Longrightarrow>
     \<exists>rest. st = (Some rest, k) \<and> vs = leaves t @ rest
       \<and> (\<forall>rnd' k'. gen_tree rnd' upper fuel depth is_max br name (Some vs, k')
              = Some (Inr t, (Some rest, k')))"
proof (induction fuel arbitrary: depth is_max name vs k t st)
  case 0
  then show ?case by simp
next
  case (Suc fuel)
  from gen_tree_Suc_Inr [OF Suc.prems]
  consider (leaf) v rest where "depth = 0" "vs = v # rest" "t = LeafNode name v" "st = (Some rest, k)"
    | (node) chs where "depth \<noteq> 0" "t = Node name chs"
        "gen_children rnd upper fuel (map int [0..<nat br]) depth is_max br name (Some vs, k)
           = Some (Inr chs, st)"
    by blast
  then show ?case
  proof cases
    case leaf
    then show ?thesis by simp
  next
    case node
    from gen_children_prefix [of rnd upper fuel br, OF Suc.IH node(3)]
    obtain rest where st: "st = (Some rest, k)" and vs: "vs = concat (map leaves chs) @ rest"
      and r: "\<And>rnd' k'. gen_children rnd' upper fuel (map int [0..<nat br]) depth is_max br name
                 (Some vs, k') = Some (Inr chs, (Some rest, k'))"
      by blast
    have "gen_tree rnd' upper (Suc fuel) depth is_max br name (Some vs, k')
            = Some (Inr t, (Some rest, k'))" for rnd' k'
      using node(1,2) r [of rnd' k'] by simp
    moreover have "vs = leaves t @ rest"
      using vs node(2) by simp
    ultimately show ?thesis using st by blast
  qed
qed

text \<open>The index 1114015: \<^verbatim>\<open>chr(97 + 1114015)\<close> is outside \<^verbatim>\<open>range(0x110000)\<close>.\<close>

lemma gen_children_append_error:
  "gen_children rnd upper fuel more depth is_max br name st = Some (Inr chs, st') \<Longrightarrow>
   py_chr (97 + i) = Inl e \<Longrightarrow>
   gen_children rnd upper fuel (more @ i # others) depth is_max br name st = Some (Inl e, st')"
proof (induction more arbitrary: st chs)
  case Nil
  then show ?case by simp
next
  case (Cons j more)
  from gen_children_Cons_Inr [OF Cons.prems(1)]
  obtain c t mid chs' where c: "py_chr (97 + j) = Inr c"
    and t: "gen_tree rnd upper fuel (depth - 1) (\<not> is_max) br
              (name @ [45] @ (if \<not> is_max then upper [c] else [c])) st = Some (Inr t, mid)"
    and r: "gen_children rnd upper fuel more depth is_max br name mid = Some (Inr chs', st')"
    by blast
  have "gen_children rnd upper fuel (more @ i # others) depth is_max br name mid = Some (Inl e, st')"
    using r Cons.prems(2) by (rule Cons.IH)
  with c t have "gen_children rnd upper fuel (j # (more @ i # others)) depth is_max br name st
      = Some (Inl e, st')"
    by (rule gen_children_later_error)
  then show ?case by simp
qed

lemma gen_tree_chr_overflow:
  assumes br: "1114015 < br" and len: "1114015 \<le> length vs"
  shows "gen_tree rnd upper (Suc (Suc fuel)) 1 is_max br name (Some vs, k)
           = Some (Inl ValueError, (Some (drop 1114015 vs), k))"
proof -
  define N :: nat where "N = 1114015"
  have iN: "int N = 1114015" by (simp add: N_def)
  have Nbr: "N < nat br" using br by (simp add: N_def)
  have split: "[0..<nat br] = [0..<N] @ N # [Suc N..<nat br]"
    using Nbr by (metis le0 less_imp_le_nat upt_add_eq_append le_add_diff_inverse upt_conv_Cons)
  define more where "more = map int [0..<N]"
  define others where "others = map int [Suc N..<nat br]"
  have all: "map int [0..<nat br] = more @ int N # others"
    unfolding split more_def others_def by simp
  have lm: "length more = N" by (simp add: more_def)
  have idx: "\<forall>i\<in>set more. 0 \<le> i \<and> i < 1114015"
    unfolding more_def using iN by auto
  have leaf: "\<exists>t. gen_tree rnd upper (Suc fuel) ((1::int) - 1) is_max' br name' (Some vs', k')
               = Some (Inr t, (Some (drop 1 vs'), k'))
           \<and> leaves t = take 1 vs' \<and> leaf_depths t = replicate 1 0 \<and> all_arity 0 t"
    if "1 \<le> length vs'" for name' is_max' vs' k'
  proof -
    from that obtain v rest where "vs' = v # rest" by (cases vs') simp_all
    then show ?thesis by simp
  qed
  have len': "length more * 1 \<le> length vs" using len by (simp add: lm N_def)
  obtain chs where "gen_children rnd upper (Suc fuel) more 1 is_max br name (Some vs, k)
        = Some (Inr chs, (Some (drop (length more * 1) vs), k))"
    using gen_children_ok [of 1 rnd upper "Suc fuel" 1 br 0 0 more vs is_max name k, OF leaf idx len']
    by blast
  then have pre: "gen_children rnd upper (Suc fuel) more 1 is_max br name (Some vs, k)
        = Some (Inr chs, (Some (drop N vs), k))"
    by (simp add: lm)
  have chr: "py_chr (97 + int N) = Inl ValueError"
    by (simp add: py_chr_def iN)
  have "gen_children rnd upper (Suc fuel) (more @ int N # others) 1 is_max br name (Some vs, k)
      = Some (Inl ValueError, (Some (drop N vs), k))"
    using pre chr by (rule gen_children_append_error)
  then have "gen_children rnd upper (Suc fuel) (map int [0..<nat br]) 1 is_max br name (Some vs, k)
      = Some (Inl ValueError, (Some (drop N vs), k))"
    by (simp only: all)
  then have "gen_tree rnd upper (Suc (Suc fuel)) 1 is_max br name (Some vs, k)
      = Some (Inl ValueError, (Some (drop N vs), k))"
    by (simp del: upt_rec_numeral)
  then show ?thesis by (simp only: N_def)
qed

section \<open>Search: the claims\<close>

text \<open>
  C1, as stated, fails: "for any tree, \<^verbatim>\<open>alpha_beta_root\<close> returns exactly the value of
  the exhaustive evaluation". A maximizing root over the leaves \<open>2^31 + 1\<close> and
  \<open>2^31 + 2\<close>: the first leaf already exceeds \<^verbatim>\<open>beta = MAX_VALUE = 2^31\<close>, the loop
  breaks and the search returns \<open>2^31 + 1\<close>, while the exhaustive value is \<open>2^31 + 2\<close>.
\<close>

theorem out_of_range_counterexample:
  "fst (alpha_beta_root (Node [65] [LeafNode [66] 2147483649, LeafNode [67] 2147483650]) True)
     = 2147483649
   \<and> minimax (Node [65] [LeafNode [66] 2147483649, LeafNode [67] 2147483650]) True = 2147483650"
  by (simp add: alpha_beta_root_def MIN_VALUE_def MAX_VALUE_def)

text \<open>
  C1, amended: for every tree whose leaf evals all lie in the closed interval from
  \<^verbatim>\<open>MIN_VALUE\<close> to \<^verbatim>\<open>MAX_VALUE\<close>, and for either player at the root,
  \<^verbatim>\<open>alpha_beta_root\<close> returns exactly the value of the exhaustive min/max evaluation
  without pruning. Nodes without children are allowed.
\<close>

theorem alpha_beta_root_exhaustive:
  "leaves_in_range t \<Longrightarrow> fst (alpha_beta_root t is_max) = minimax t is_max"
  by (rule root_value_minimax)

theorem alpha_beta_root_exhaustive_witness:
  "leaves_in_range (cutoff_example (\<lambda>s. s))
   \<and> fst (alpha_beta_root (cutoff_example (\<lambda>s. s)) True) = minimax (cutoff_example (\<lambda>s. s)) True"
proof -
  have h: "leaves_in_range (cutoff_example (\<lambda>s. s))"
    by (simp add: leaves_in_range_def cutoff_example_def MIN_VALUE_def MAX_VALUE_def)
  show ?thesis using h alpha_beta_root_exhaustive [OF h, of True] by simp
qed

text \<open>
  C2: in either loop of \<^verbatim>\<open>alpha_beta\<close>, with any values of the loop variables, when
  \<^verbatim>\<open>beta <= alpha\<close> holds after the child \<open>ch\<close> has been processed (after the
  update of \<^verbatim>\<open>alpha\<close> in a maximizing node, of \<^verbatim>\<open>beta\<close> in a minimizing one), the
  loop stops: its result (value, printed events, calls) is the one it has when \<open>ch\<close> is
  the last child, whatever siblings \<open>rest\<close> follow, and the calls made are exactly
  those of the search of \<open>ch\<close>, so that \<^verbatim>\<open>alpha_beta\<close> is called on no later sibling.
\<close>

theorem cutoff_skips_later_siblings:
  "(alpha_beta ch alpha beta False (indent spaces) True = (ab, out1, calls1)
      \<and> beta \<le> (if alpha < max v ab then max v ab else alpha)
    \<longrightarrow> max_loop (ch # rest) name v alpha beta spaces verbose
          = max_loop [ch] name v alpha beta spaces verbose
      \<and> snd (snd (max_loop (ch # rest) name v alpha beta spaces verbose)) = calls1)
   \<and> (alpha_beta ch alpha beta True (indent spaces) True = (ab, out1, calls1)
      \<and> (if min ab v < beta then min ab v else beta) \<le> alpha
    \<longrightarrow> min_loop (ch # rest) name v alpha beta spaces verbose
          = min_loop [ch] name v alpha beta spaces verbose
      \<and> snd (snd (min_loop (ch # rest) name v alpha beta spaces verbose)) = calls1)"
  by (simp add: Let_def)

theorem cutoff_skips_later_siblings_witness:
  "max_loop [LeafNode [66] 5, LeafNode [67] 9] [65] 4 0 3 [] True
     = max_loop [LeafNode [66] 5] [65] 4 0 3 [] True
   \<and> snd (snd (max_loop [LeafNode [66] 5, LeafNode [67] 9] [65] 4 0 3 [] True)) = [LeafNode [66] 5]
   \<and> min_loop [LeafNode [66] 2, LeafNode [67] 9] [65] 4 3 7 [] True
     = min_loop [LeafNode [66] 2] [65] 4 3 7 [] True
   \<and> snd (snd (min_loop [LeafNode [66] 2, LeafNode [67] 9] [65] 4 3 7 [] True)) = [LeafNode [66] 2]"
proof -
  have m: "alpha_beta (LeafNode [66] 5) 0 3 False (indent []) True
             = (5, [Leaf_eval (indent []) [66] 5], [LeafNode [66] 5])
           \<and> (3::int) \<le> (if (0::int) < max 4 5 then max 4 5 else 0)"
    by simp
  have n: "alpha_beta (LeafNode [66] 2) 3 7 True (indent []) True
             = (2, [Leaf_eval (indent []) [66] 2], [LeafNode [66] 2])
           \<and> (if min 2 4 < (7::int) then min 2 4 else (7::int)) \<le> 3"
    by simp
  from m n
    cutoff_skips_later_siblings [of "LeafNode [66] 5" 0 3 "[]" 5 "[Leaf_eval (indent []) [66] 5]"
      "[LeafNode [66] 5]" 4 "[LeafNode [67] 9]" "[65]" True]
    cutoff_skips_later_siblings [of "LeafNode [66] 2" 3 7 "[]" 2 "[Leaf_eval (indent []) [66] 2]"
      "[LeafNode [66] 2]" 4 "[LeafNode [67] 9]" "[65]" True]
  show ?thesis by blast
qed

text \<open>
  C7, as stated, fails: "on an internal node with zero children \<^verbatim>\<open>alpha_beta\<close> fails
  with a malformed-tree error rather than returning a sentinel bound". The search of a
  root without children returns \<^verbatim>\<open>MIN_VALUE\<close>, after printing that it entered and that
  it returns.
\<close>

theorem childless_node_counterexample:
  "alpha_beta_root (Node [65] []) True
     = (- 2147483648,
        [Enter_node [] [65] (- 2147483648) 2147483648 True, Returning [] [65] (- 2147483648)],
        [Node [65] []])"
  by (simp add: alpha_beta_root_def MIN_VALUE_def MAX_VALUE_def)

text \<open>
  C7, amended: \<^verbatim>\<open>alpha_beta\<close> raises nothing on an internal node with zero children; it
  returns the initial value of \<^verbatim>\<open>v\<close>, that is \<^verbatim>\<open>MIN_VALUE\<close> when maximizing and
  \<^verbatim>\<open>MAX_VALUE\<close> when minimizing, whatever \<^verbatim>\<open>alpha\<close> and \<^verbatim>\<open>beta\<close> are.
\<close>

theorem childless_node_returns_sentinel:
  "fst (alpha_beta (Node name []) alpha beta True spaces verbose) = MIN_VALUE
   \<and> fst (alpha_beta (Node name []) alpha beta False spaces verbose) = MAX_VALUE"
  by simp

text \<open>
  C8, as stated, fails in the kind of the cut-off: "a beta cut-off occurs while exploring
  the second min node". The only cut-off of the run is the one of the minimizing branch
  (line 157), which the program reports as \<^verbatim>\<open>ALPHA cut-off\<close>; \<^verbatim>\<open>BETA cut-off\<close> is what
  the maximizing branch reports (line 132), and the run has none.
\<close>

theorem cutoff_example_counterexample:
  "filter is_cutoff (fst (snd (alpha_beta_root (cutoff_example (\<lambda>s. s)) True)))
     = [ALPHA_cutoff [32, 32] 3 2]"
  by (simp add: alpha_beta_root_def cutoff_example_def MIN_VALUE_def MAX_VALUE_def indent_def)

text \<open>
  C8, amended: for the depth-2, branching-factor-2 tree generated from the leaf values
  3, 5, 2, 9 with a maximizing root, \<^verbatim>\<open>alpha_beta_root\<close> returns 3; the second
  minimizing node \<^verbatim>\<open>A-b\<close> is entered with \<^verbatim>\<open>alpha = 3\<close>, lowers \<^verbatim>\<open>beta\<close> to 2 at its
  first leaf and stops there with an alpha cut-off (printed \<^verbatim>\<open>ALPHA cut-off\<close>); the
  leaves evaluated are 3, 5 and 2, fewer than 4, and \<^verbatim>\<open>alpha_beta\<close> is never called on
  the leaf with value 9. The statement gives the whole run: value, printed events and
  calls; its last part is that \<^verbatim>\<open>gen_tree\<close> builds this tree from these values.
\<close>

theorem cutoff_example_search:
  "alpha_beta_root (cutoff_example upper) True =
     (3,
      [Enter_node [] [65] MIN_VALUE MAX_VALUE True,
       Enter_node [32, 32] [65, 45, 97] MIN_VALUE MAX_VALUE False,
       Leaf_eval [32, 32, 32, 32] ([65, 45, 97, 45] @ upper [97]) 3,
       Updating_beta [32, 32] [65, 45, 97] MIN_VALUE 3,
       Leaf_eval [32, 32, 32, 32] ([65, 45, 97, 45] @ upper [98]) 5,
       Returning [32, 32] [65, 45, 97] 3,
       Updating_alpha [] [65] MIN_VALUE 3,
       Enter_node [32, 32] [65, 45, 98] 3 MAX_VALUE False,
       Leaf_eval [32, 32, 32, 32] ([65, 45, 98, 45] @ upper [97]) 2,
       Updating_beta [32, 32] [65, 45, 98] 3 2,
       ALPHA_cutoff [32, 32] 3 2,
       Returning [32, 32] [65, 45, 98] 2,
       Returning [] [65] 3],
      [cutoff_example upper,
       Node [65, 45, 97]
         [LeafNode ([65, 45, 97, 45] @ upper [97]) 3, LeafNode ([65, 45, 97, 45] @ upper [98]) 5],
       LeafNode ([65, 45, 97, 45] @ upper [97]) 3,
       LeafNode ([65, 45, 97, 45] @ upper [98]) 5,
       Node [65, 45, 98]
         [LeafNode ([65, 45, 98, 45] @ upper [97]) 2, LeafNode ([65, 45, 98, 45] @ upper [98]) 9],
       LeafNode ([65, 45, 98, 45] @ upper [97]) 2])
   \<and> evaluated_leaves (snd (snd (alpha_beta_root (cutoff_example upper) True))) = [3, 5, 2]
   \<and> gen_tree rnd upper (Suc (Suc (Suc fuel))) 2 True 2 [65] (Some [3, 5, 2, 9], drawn)
       = Some (Inr (cutoff_example upper), (Some [], drawn))"
  by (simp add: alpha_beta_root_def cutoff_example_def MIN_VALUE_def MAX_VALUE_def indent_def
        py_chr_def Let_def upt_conv_Cons)

text \<open>
  C9: the value \<^verbatim>\<open>alpha_beta\<close> returns does not depend on \<^verbatim>\<open>verbose\<close>: for every
  node, \<^verbatim>\<open>alpha\<close>, \<^verbatim>\<open>beta\<close>, \<^verbatim>\<open>is_max\<close> and \<^verbatim>\<open>spaces\<close>, the calls with
  \<^verbatim>\<open>verbose=True\<close> and with \<^verbatim>\<open>verbose=False\<close> return the same integer.
\<close>

theorem value_independent_of_verbose:
  "fst (alpha_beta node alpha beta is_max spaces True) =
   fst (alpha_beta node alpha beta is_max spaces False)"
proof (cases node)
  case (Node name chs)
  show ?thesis
    unfolding Node fst_alpha_beta_Node
    by (simp only: max_loop_verbose min_loop_verbose)
next
  case (LeafNode name eval)
  then show ?thesis by simp
qed

text \<open>
  C10: for every tree in which every internal node has at least one child and every
  leaf eval lies strictly between \<^verbatim>\<open>MIN_VALUE\<close> and \<^verbatim>\<open>MAX_VALUE\<close>, the value
  returned by \<^verbatim>\<open>alpha_beta_root\<close> is the eval of a leaf of the tree.
\<close>

theorem alpha_beta_root_is_leaf_value:
  "well_formed t \<Longrightarrow> leaves_strictly_in_range t \<Longrightarrow>
     fst (alpha_beta_root t is_max) \<in> set (leaves t)"
proof -
  assume wf: "well_formed t" and strict: "leaves_strictly_in_range t"
  have "leaves_in_range t"
    using strict by (auto simp: leaves_in_range_def leaves_strictly_in_range_def list_all_iff)
  then have "fst (alpha_beta_root t is_max) = minimax t is_max"
    by (rule root_value_minimax)
  then show ?thesis using minimax_is_leaf [OF wf, of is_max] by simp
qed

theorem alpha_beta_root_is_leaf_value_witness:
  "well_formed (cutoff_example (\<lambda>s. s)) \<and> leaves_strictly_in_range (cutoff_example (\<lambda>s. s))
   \<and> fst (alpha_beta_root (cutoff_example (\<lambda>s. s)) False) \<in> set (leaves (cutoff_example (\<lambda>s. s)))"
proof -
  have wf: "well_formed (cutoff_example (\<lambda>s. s))"
    by (simp add: cutoff_example_def)
  have strict: "leaves_strictly_in_range (cutoff_example (\<lambda>s. s))"
    by (simp add: leaves_strictly_in_range_def cutoff_example_def MIN_VALUE_def MAX_VALUE_def)
  show ?thesis
    using wf strict alpha_beta_root_is_leaf_value [OF wf strict, of False] by simp
qed

section \<open>Generation: the claims\<close>

text \<open>
  C5: a leaf that is to be created when the supplied sequence is empty makes
  \<^verbatim>\<open>gen_tree\<close> raise \<^verbatim>\<open>IndexError\<close>, the exhaustion error. First part: the call that
  creates the leaf. Second part: the whole generation, for a depth \<open>d\<close>, a branching
  factor from 1 to 1114015 (the indices for which \<^verbatim>\<open>chr\<close> succeeds) and fewer values
  than the \<open>br ^ d\<close> leaves, at any nesting bound above \<open>d\<close>: it raises
  \<^verbatim>\<open>IndexError\<close> and leaves the sequence empty. Third part: depth 2, branching factor
  2 and the values 1, 2, 3 raise \<^verbatim>\<open>IndexError\<close> after all three have been consumed.
\<close>

theorem exhausted_leaf_values:
  "gen_tree rnd upper (Suc fuel) 0 is_max br name (Some [], drawn)
     = Some (Inl IndexError, (Some [], drawn))
   \<and> (1 \<le> br \<and> br \<le> 1114015 \<and> length vs < nat br ^ d \<and> d < fuel'
      \<longrightarrow> gen_tree rnd upper fuel' (int d) is_max br name (Some vs, drawn)
            = Some (Inl IndexError, (Some [], drawn)))
   \<and> gen_tree rnd upper (Suc (Suc (Suc fuel))) 2 is_max 2 name (Some [1, 2, 3], drawn)
     = Some (Inl IndexError, (Some [], drawn))"
proof -
  have "gen_tree rnd upper (Suc (Suc (Suc fuel))) (int 2) is_max 2 name (Some [1, 2, 3], drawn)
     = Some (Inl IndexError, (Some [], drawn))"
    by (rule gen_tree_exhausted) simp_all
  then show ?thesis
    using gen_tree_exhausted [of br vs d fuel' rnd upper is_max name drawn] by simp
qed

theorem exhausted_leaf_values_witness:
  "(1::int) \<le> 2 \<and> (2::int) \<le> 1114015 \<and> length [1, 2, 3 :: int] < nat 2 ^ 2 \<and> (2::nat) < 3
   \<and> gen_tree (\<lambda>n. 0) (\<lambda>s. s) 3 2 True 2 [65] (Some [1, 2, 3], 0)
     = Some (Inl IndexError, (Some [], 0))"
  using exhausted_leaf_values [of "\<lambda>n. 0" "\<lambda>s. s" 0 True 2 "[65]" 0 "[1, 2, 3]" 2 3]
  by simp

text \<open>
  C6, as stated, fails: "\<^verbatim>\<open>gen_tree\<close> fails with an invalid-parameter error whenever
  called with depth < 0 or branching_factor <= 0". With depth 1 and branching factor 0
  the loop body never runs and the call returns the internal node \<^verbatim>\<open>A\<close> without
  children.
\<close>

theorem no_validation_counterexample:
  "gen_tree (\<lambda>n. 0) (\<lambda>s. s) (Suc 0) 1 True 0 [65] (Some [], 0)
     = Some (Inr (Node [65] []), (Some [], 0))"
  by simp

text \<open>
  C6, amended: \<^verbatim>\<open>gen_tree\<close> checks neither parameter. Called with a depth other than 0
  and a branching factor of 0 or less, it returns an internal node without children and
  leaves the sequence as it was. Called with a negative depth and a branching factor of
  at least 1, it never reaches depth 0: no bound on the nesting of calls is enough for
  it to return (CPython ends such a run with \<^verbatim>\<open>RecursionError\<close>).
\<close>

theorem no_parameter_validation:
  "(depth \<noteq> 0 \<and> br \<le> 0
      \<longrightarrow> gen_tree rnd upper (Suc fuel) depth is_max br name st = Some (Inr (Node name []), st))
   \<and> (depth < 0 \<and> 1 \<le> br
      \<longrightarrow> gen_tree rnd upper fuel depth is_max br name st = None)"
  using gen_tree_no_children [of depth br rnd upper fuel is_max name st]
    gen_tree_negative_depth [of depth br rnd upper fuel is_max name st]
  by blast

theorem no_parameter_validation_witness:
  "gen_tree (\<lambda>n. 0) (\<lambda>s. s) (Suc 0) (- 1) True 0 [65] (Some [7], 0)
     = Some (Inr (Node [65] []), (Some [7], 0))
   \<and> gen_tree (\<lambda>n. 0) (\<lambda>s. s) 1000 (- 1) True 2 [65] (Some [7], 0) = None"
  using no_parameter_validation [of "- 1" 0 "\<lambda>n. 0" "\<lambda>s. s" 0 True "[65]" "(Some [7], 0)"]
    no_parameter_validation [of "- 1" 2 "\<lambda>n. 0" "\<lambda>s. s" 1000 True "[65]" "(Some [7], 0)"]
  by simp

text \<open>
  C3: "for every depth D >= 0, branching factor B >= 1 and sequence of at least B^D
  values, \<^verbatim>\<open>gen_tree\<close> removes exactly B^D values and returns a tree with exactly B^D
  leaves, all at depth D, every internal node having exactly B children". This is what
  \<^verbatim>\<open>gen_tree\<close> is written to do, and its docstring puts no bound on the branching
  factor; the code misses it through the naming of the children, which serves the
  printing only: line 61 computes \<^verbatim>\<open>chr(ord('a') + i)\<close>, and \<^verbatim>\<open>chr\<close> raises
  \<^verbatim>\<open>ValueError\<close> at \<open>i = 1114015\<close>. The run of the code at depth 1, branching factor
  1114016 and 1114016 values: it raises after 1114015 leaves, with one value left in
  the sequence, and returns no tree.
\<close>

theorem gen_tree_large_branching_raises:
  "gen_tree (\<lambda>n. 0) (\<lambda>s. s) (Suc (Suc 0)) 1 True 1114016 [65] (Some (replicate 1114016 0), 0)
     = Some (Inl ValueError, (Some [0], 0))"
proof -
  have br: "(1114015::int) < 1114016" by simp
  have len: "1114015 \<le> length (replicate 1114016 (0::int))"
    by (simp only: length_replicate)
  have left: "drop 1114015 (replicate 1114016 (0::int)) = [0]"
    by (simp only: drop_replicate, simp)
  have "gen_tree (\<lambda>n. 0) (\<lambda>s. s) (Suc (Suc 0)) 1 True 1114016 [65] (Some (replicate 1114016 0), 0)
     = Some (Inl ValueError, (Some (drop 1114015 (replicate 1114016 0)), 0))"
    using br len by (rule gen_tree_chr_overflow)
  then show ?thesis by (simp only: left)
qed

text \<open>
  Where line 61 is not reached with such an index the generator does build the full
  tree: at depth 0, where no name is computed and the branching factor is not read, and
  at any depth for a branching factor from 1 to 1114015. With at least \<open>br ^ d\<close>
  values and a nesting bound above \<open>d\<close> the call returns a tree and leaves the
  sequence without its first \<open>br ^ d\<close> values; the tree has exactly \<open>br ^ d\<close>
  leaves, every leaf is at depth \<open>d\<close>, and every internal node has exactly \<open>br\<close>
  children.
\<close>

lemma gen_tree_full_tree:
  assumes br: "1 \<le> br" and named: "d = 0 \<or> br \<le> 1114015"
    and len: "nat br ^ d \<le> length vs" and fuel: "d < fuel"
  shows "\<exists>t. gen_tree rnd upper fuel (int d) is_max br name (Some vs, drawn)
            = Some (Inr t, (Some (drop (nat br ^ d) vs), drawn))
        \<and> length (leaves t) = nat br ^ d
        \<and> leaf_depths t = replicate (nat br ^ d) d
        \<and> all_arity (nat br) t"
proof (cases "br \<le> 1114015")
  case True
  from gen_tree_ok [OF br True len fuel, of rnd upper is_max name drawn]
  obtain t where t: "gen_tree rnd upper fuel (int d) is_max br name (Some vs, drawn)
            = Some (Inr t, (Some (drop (nat br ^ d) vs), drawn))"
    and l: "leaves t = take (nat br ^ d) vs"
    and rest: "leaf_depths t = replicate (nat br ^ d) d" "all_arity (nat br) t"
    by blast
  have "length (leaves t) = nat br ^ d" using l len by simp
  with t rest show ?thesis by blast
next
  case False
  with named have d: "d = 0" by simp
  from fuel obtain f where f: "fuel = Suc f" by (cases fuel) simp_all
  from len d obtain v rest where vs: "vs = v # rest" by (cases vs) simp_all
  show ?thesis by (simp add: d f vs)
qed

lemma gen_tree_full_tree_instances:
  "(\<exists>t. gen_tree (\<lambda>n. 0) (\<lambda>s. s) 3 2 True 2 [65] (Some [3, 5, 2, 9], 0)
             = Some (Inr t, (Some [], 0))
          \<and> length (leaves t) = 4 \<and> leaf_depths t = replicate 4 2 \<and> all_arity 2 t)
   \<and> (\<exists>t. gen_tree (\<lambda>n. 0) (\<lambda>s. s) 1 0 True 2000000 [65] (Some [7, 8], 0)
             = Some (Inr t, (Some [8], 0))
          \<and> length (leaves t) = 1 \<and> leaf_depths t = [0] \<and> all_arity 2000000 t)"
  using gen_tree_full_tree [of 2 2 "[3, 5, 2, 9]" 3 "\<lambda>n. 0" "\<lambda>s. s" True "[65]" 0]
    gen_tree_full_tree [of 2000000 0 "[7, 8]" 1 "\<lambda>n. 0" "\<lambda>s. s" True "[65]" 0]
  by simp

text \<open>
  C4: with a supplied sequence, generation is determined by the sequence and fills the
  leaves in pre-order. First part, for every call that returns a node: the evals of its
  leaves, left to right, are the values the call removed from the front of the
  sequence, in their order (the i-th leaf has the i-th value), and the same call with
  any other random stream and count of draws returns the same node and leaves the same
  rest. Second part, that such calls return: for a depth \<open>d\<close>, a branching factor from
  1 to 1114015 and at least \<open>br ^ d\<close> values, the call returns a node whose leaves are
  the first \<open>br ^ d\<close> values.
\<close>

theorem gen_tree_preorder_values:
  "(gen_tree rnd upper fuel depth is_max br name (Some vs, drawn) = Some (Inr t, st)
      \<longrightarrow> (\<exists>rest. st = (Some rest, drawn) \<and> vs = leaves t @ rest
             \<and> (\<forall>rnd' drawn'. gen_tree rnd' upper fuel depth is_max br name (Some vs, drawn')
                    = Some (Inr t, (Some rest, drawn')))))
   \<and> (1 \<le> br \<and> br \<le> 1114015 \<and> nat br ^ d \<le> length vs \<and> d < fuel
      \<longrightarrow> (\<exists>t'. gen_tree rnd upper fuel (int d) is_max br name (Some vs, drawn)
                  = Some (Inr t', (Some (drop (nat br ^ d) vs), drawn))
               \<and> leaves t' = take (nat br ^ d) vs))"
proof (intro conjI impI)
  assume "gen_tree rnd upper fuel depth is_max br name (Some vs, drawn) = Some (Inr t, st)"
  then show "\<exists>rest. st = (Some rest, drawn) \<and> vs = leaves t @ rest
             \<and> (\<forall>rnd' drawn'. gen_tree rnd' upper fuel depth is_max br name (Some vs, drawn')
                    = Some (Inr t, (Some rest, drawn')))"
    by (rule gen_tree_prefix)
next
  assume "1 \<le> br \<and> br \<le> 1114015 \<and> nat br ^ d \<le> length vs \<and> d < fuel"
  then show "\<exists>t'. gen_tree rnd upper fuel (int d) is_max br name (Some vs, drawn)
                  = Some (Inr t', (Some (drop (nat br ^ d) vs), drawn))
               \<and> leaves t' = take (nat br ^ d) vs"
    using gen_tree_ok [of br d vs fuel rnd upper is_max name drawn] by blast
qed

theorem gen_tree_preorder_values_witness:
  "gen_tree (\<lambda>n. 0) (\<lambda>s. s) 3 2 True 2 [65] (Some [3, 5, 2, 9, 4], 0)
     = Some (Inr (cutoff_example (\<lambda>s. s)), (Some [4], 0))
   \<and> (\<exists>rest. [3, 5, 2, 9, 4] = leaves (cutoff_example (\<lambda>s. s)) @ rest
         \<and> gen_tree (\<lambda>n. 7) (\<lambda>s. s) 3 2 True 2 [65] (Some [3, 5, 2, 9, 4], 1)
             = Some (Inr (cutoff_example (\<lambda>s. s)), (Some rest, 1)))
   \<and> (\<exists>t'. gen_tree (\<lambda>n. 0) (\<lambda>s. s) 3 (int 2) True 2 [65] (Some [3, 5, 2, 9, 4], 0)
             = Some (Inr t', (Some (drop (nat 2 ^ 2) [3, 5, 2, 9, 4]), 0))
          \<and> leaves t' = take (nat 2 ^ 2) [3, 5, 2, 9, 4])"
proof -
  have run: "gen_tree (\<lambda>n. 0) (\<lambda>s. s) 3 2 True 2 [65] (Some [3, 5, 2, 9, 4], 0)
     = Some (Inr (cutoff_example (\<lambda>s. s)), (Some [4], 0))"
    by (simp add: cutoff_example_def numeral_3_eq_3 py_chr_def Let_def upt_conv_Cons)
  have hyp: "(1::int) \<le> 2 \<and> (2::int) \<le> 1114015 \<and> nat 2 ^ 2 \<le> length [3, 5, 2, 9, 4 :: int]
      \<and> (2::nat) < 3"
    by simp
  from gen_tree_preorder_values [of "\<lambda>n. 0" "\<lambda>s. s" 3 2 True 2 "[65]" "[3, 5, 2, 9, 4]" 0
      "cutoff_example (\<lambda>s. s)" "(Some [4], 0)" 2] run hyp
  show ?thesis by blast
qed

end
